theory Spec2Isabelle
  imports Main "HOL-Library.Sublist"
begin

section \<open>The multi-statement splitter (database/multistmt/parse.go)\<close>

subsection \<open>Errors, readers and handlers\<close>

text \<open>
  Go's \<^verbatim>\<open>error\<close> values. \<open>EOF\<close> is \<^verbatim>\<open>io.EOF\<close>, \<open>Err e\<close> is any other
  error value, and \<open>Wrapf err msg\<close> is \<^verbatim>\<open>errors.Wrapf(err, "%s", msg)\<close>: a new
  error that carries the cause and the message.
\<close>

datatype 'e error = EOF | Err 'e | Wrapf "'e error" string

text \<open>
  One call of \<^verbatim>\<open>reader.Read(buf)\<close> returns the bytes it stored at the front of
  \<^verbatim>\<open>buf\<close> and an error (\<open>None\<close> is \<^verbatim>\<open>nil\<close>). An \<^verbatim>\<open>io.Reader\<close> is modelled
  by the list of the results of its successive \<^verbatim>\<open>Read\<close> calls; a reader whose list
  is used up reports \<^verbatim>\<open>(0, io.EOF)\<close>. Bytes are \<^typ>\<open>char\<close>s.
\<close>

type_synonym 'e read_result = "string \<times> 'e error option"

text \<open>
  A \<^verbatim>\<open>Handler\<close> is a Go closure: it may keep state between calls. It takes its
  state and the statement, and returns its error and its new state.
\<close>

type_synonym ('e, 's) handler = "'s \<Rightarrow> string \<Rightarrow> 'e error option \<times> 's"

subsection \<open>The state of the scan\<close>

record pstate =
  discard :: bool
  fnbody :: bool
  accum :: string
  stmts :: "string list"

definition init :: pstate where
  "init = \<lparr>discard = False, fnbody = False, accum = [], stmts = []\<rparr>"

text \<open>
  \<^verbatim>\<open>strings.ReplaceAll(s, old, new)\<close> of the Go library, for a non-empty
  \<open>old\<close>: the non-overlapping occurrences of \<open>old\<close>, leftmost first, are replaced
  by \<open>new\<close>. (The splitter only calls it with the token \<^verbatim>\<open><SCHEMA_NAME>\<close>; an
  empty \<open>old\<close> leaves \<open>s\<close> as it is here.)
\<close>

function replaceAll :: "string \<Rightarrow> string \<Rightarrow> string \<Rightarrow> string" where
  "replaceAll [] old new = []"
| "replaceAll (c # cs) old new =
     (if old \<noteq> [] \<and> prefix old (c # cs)
      then new @ replaceAll (drop (length old) (c # cs)) old new
      else c # replaceAll cs old new)"
  by pat_completeness auto
termination
  by (relation "measure (\<lambda>(s, old, new). length s)") auto

subsection \<open>One byte of the buffer\<close>

text \<open>
  The body of the loop \<^verbatim>\<open>for i := range buf[:n]\<close> after the carry check
  (parse.go, lines 83 to 151), with the guards of the source as they are written.
  The calls of \<^verbatim>\<open>trace\<close> only print and are left out.
\<close>

definition step :: "string \<Rightarrow> string \<Rightarrow> nat \<Rightarrow> pstate \<Rightarrow> pstate" where
  "step replacementStatement buf i st =
    (let ch = buf ! i;
         st1 = (if \<not> fnbody st then
                  (if length buf > 1 \<and> i + 1 < length buf
                      \<and> buf ! i = CHR ''-'' \<and> buf ! (i + 1) = CHR ''-''
                   then st\<lparr>discard := True\<rparr>
                   else if length buf > 1 \<and> i + 1 < length buf
                      \<and> buf ! i = CHR ''/'' \<and> buf ! (i + 1) = CHR ''/''
                   then st\<lparr>discard := True\<rparr>
                   else st)
                else st)
     in if ch = CHR ''$'' then
          (let st2 = (if length buf \<ge> i + 1 \<and> buf ! (i + 1) = CHR ''$''
                      then st1\<lparr>fnbody := \<not> fnbody st1\<rparr> else st1)
           in if \<not> discard st2 then st2\<lparr>accum := accum st2 @ [ch]\<rparr> else st2)
        else if ch = CHR '';'' then
          (if fnbody st1 then st1\<lparr>accum := accum st1 @ [ch]\<rparr>
           else if \<not> discard st1 then
             (let c1 = accum st1 @ [ch];
                  c1' = (if replacementStatement \<noteq> []
                         then replaceAll c1 ''<SCHEMA_NAME>'' replacementStatement
                         else c1)
              in st1\<lparr>stmts := stmts st1 @ [c1'], accum := []\<rparr>)
           else st1)
        else if ch = CHR 0x0A then
          (let st2 = st1\<lparr>discard := False\<rparr>
           in if fnbody st2 then st2\<lparr>accum := accum st2 @ [ch]\<rparr> else st2)
        else (if \<not> discard st1 then st1\<lparr>accum := accum st1 @ [ch]\<rparr> else st1))"

subsection \<open>The loop over one buffer\<close>

text \<open>
  \<^verbatim>\<open>for i := range buf[:n]\<close>, from index \<open>i\<close> on. The loop breaks at the first
  index with \<^verbatim>\<open>i+1 >= len(buf)\<close> and copies \<^verbatim>\<open>buf[i:n]\<close> to \<^verbatim>\<open>tmp\<close>;
  \<^verbatim>\<open>tmp\<close> is empty when the loop starts. The result is the state and \<^verbatim>\<open>tmp\<close>.
\<close>

function inner :: "string \<Rightarrow> string \<Rightarrow> nat \<Rightarrow> nat \<Rightarrow> pstate \<Rightarrow> pstate \<times> string" where
  "inner replacementStatement buf n i st =
     (if i < n then
        (if i + 1 \<ge> length buf then (st, drop i (take n buf))
         else inner replacementStatement buf n (i + 1) (step replacementStatement buf i st))
      else (st, []))"
  by pat_completeness auto
termination
  by (relation "measure (\<lambda>(r, buf, n, i, st). n - i)") auto

declare inner.simps [simp del]

subsection \<open>One round of the read loop\<close>

text \<open>
  One pass through the body of \<^verbatim>\<open>for err == nil\<close> up to the test of the read's
  error (lines 50 to 155): a fresh zeroed buffer of \<open>ParseBufSize\<close> bytes receives
  the read; a non-empty \<^verbatim>\<open>tmp\<close> is put in front of the bytes read, which makes
  \<^verbatim>\<open>len(buf)\<close> equal to \<open>n\<close>; otherwise \<^verbatim>\<open>buf\<close> keeps its full length and the
  bytes after the \<open>n\<close> read are zero (the reader is taken to write only the bytes
  it returns). A read result longer than the buffer makes \<^verbatim>\<open>buf[:n]\<close> panic: the
  result is \<open>None\<close>. \<open>ParseBufSize\<close> is a natural number: a negative one would make
  \<^verbatim>\<open>make\<close> panic before the first read.
\<close>

definition iteration ::
  "nat \<Rightarrow> string \<Rightarrow> 'e read_result \<Rightarrow> pstate \<times> string \<Rightarrow> (pstate \<times> string) option" where
  "iteration ParseBufSize replacementStatement rd s =
    (let (st, tmp) = s; (data, err) = rd in
     if length data > ParseBufSize then None
     else
       let buf0 = data @ replicate (ParseBufSize - length data) (CHR 0x00);
           n0 = length data;
           (buf, n) = (if length tmp > 0 then (tmp @ take n0 buf0, n0 + length tmp)
                       else (buf0, n0))
       in Some (if n > 0 then inner replacementStatement buf n 0 st else (st, [])))"

subsection \<open>The read loop\<close>

datatype 'e split_result = Stmts "string list" | ReadFailed "'e error" | Panicked

text \<open>
  The loop \<^verbatim>\<open>for err == nil\<close> (lines 49 to 162). The \<^verbatim>\<open>err\<close> of the loop
  condition is the outer variable, which stays \<^verbatim>\<open>nil\<close>: the loop ends only by
  \<^verbatim>\<open>break\<close> at \<^verbatim>\<open>io.EOF\<close> or by \<^verbatim>\<open>return err\<close>.
\<close>

fun readLoop ::
  "nat \<Rightarrow> string \<Rightarrow> 'e read_result list \<Rightarrow> pstate \<times> string \<Rightarrow> 'e split_result" where
  "readLoop ParseBufSize replacementStatement [] s =
     (case iteration ParseBufSize replacementStatement ([], Some (EOF :: 'e error)) s of
        None \<Rightarrow> Panicked
      | Some (st, tmp) \<Rightarrow> Stmts (stmts st))"
| "readLoop ParseBufSize replacementStatement (rd # reader) s =
     (case iteration ParseBufSize replacementStatement rd s of
        None \<Rightarrow> Panicked
      | Some (st, tmp) \<Rightarrow>
          (case snd rd of
             Some EOF \<Rightarrow> Stmts (stmts st)
           | Some err \<Rightarrow> ReadFailed err
           | None \<Rightarrow> readLoop ParseBufSize replacementStatement reader (st, tmp)))"

subsection \<open>Delivery to the handler, and Parse\<close>

text \<open>
  \<^verbatim>\<open>for i, stmt := range stmts\<close> (lines 164 to 169): the statements the handler
  was called with, in order, the error returned (if any) and the handler's last state.
  The \<^verbatim>\<open>fmt.Println\<close> of each statement only prints.
\<close>

fun deliver ::
  "('e, 's) handler \<Rightarrow> 's \<Rightarrow> string list \<Rightarrow> string list \<times> 'e error option \<times> 's" where
  "deliver h s [] = ([], None, s)"
| "deliver h s (stmt # rest) =
     (case h s stmt of
        (Some err, s') \<Rightarrow> ([stmt], Some (Wrapf err stmt), s')
      | (None, s') \<Rightarrow>
          (case deliver h s' rest of (called, r, s'') \<Rightarrow> (stmt # called, r, s'')))"

datatype 'e outcome = Return "'e error option" | Panic

record ('e, 's) run =
  outcome :: "'e outcome"
  calls :: "string list"
  hstate :: 's

definition Parse ::
  "nat \<Rightarrow> 'e read_result list \<Rightarrow> string \<Rightarrow> ('e, 's) handler \<Rightarrow> 's \<Rightarrow> ('e, 's) run" where
  "Parse ParseBufSize reader replacementStatement h s =
    (case readLoop ParseBufSize replacementStatement reader (init, []) of
       Panicked \<Rightarrow> \<lparr>outcome = Panic, calls = [], hstate = s\<rparr>
     | ReadFailed err \<Rightarrow> \<lparr>outcome = Return (Some err), calls = [], hstate = s\<rparr>
     | Stmts ss \<Rightarrow>
         (case deliver h s ss of
            (called, r, s') \<Rightarrow> \<lparr>outcome = Return r, calls = called, hstate = s'\<rparr>))"

subsection \<open>Readers and handlers used in the statements below\<close>

text \<open>
  The reads of a reader that hands over all of \<open>data\<close> at the first \<^verbatim>\<open>Read\<close> with
  a \<^verbatim>\<open>nil\<close> error and reports \<^verbatim>\<open>(0, io.EOF)\<close> at the second, as
  \<^verbatim>\<open>strings.NewReader(data)\<close> does when the buffer is longer than \<open>data\<close>.
\<close>

definition oneShot :: "string \<Rightarrow> 'e read_result list" where
  "oneShot data = [(data, None), ([], Some EOF)]"

text \<open>A handler that accepts every statement and counts its calls.\<close>

definition accept :: "('e, nat) handler" where
  "accept s stmt = (None, Suc s)"

text \<open>A handler that fails with \<open>Err e\<close> on the statement \<open>bad\<close> and accepts the others.\<close>

definition failOn :: "string \<Rightarrow> 'e \<Rightarrow> ('e, nat) handler" where
  "failOn bad e s stmt = (if stmt = bad then Some (Err e) else None, Suc s)"

text \<open>
  \<open>accepts h s xs\<close>: called on the statements \<open>xs\<close> in order from the state \<open>s\<close>, the
  handler returns \<^verbatim>\<open>nil\<close> every time; \<open>after h s xs\<close> is its state after these calls.
\<close>

fun accepts :: "('e, 's) handler \<Rightarrow> 's \<Rightarrow> string list \<Rightarrow> bool" where
  "accepts h s [] = True"
| "accepts h s (x # xs) = (fst (h s x) = None \<and> accepts h (snd (h s x)) xs)"

fun after :: "('e, 's) handler \<Rightarrow> 's \<Rightarrow> string list \<Rightarrow> 's" where
  "after h s [] = s"
| "after h s (x # xs) = after h (snd (h s x)) xs"

subsection \<open>The bytes of one read, seen as a list\<close>

text \<open>
  \<open>scan repl la cs st\<close> handles the bytes \<open>cs\<close> in order as the loop over a buffer
  does: each byte is looked at together with the byte that follows it, the last one
  together with \<open>la\<close>. It is what \<open>inner\<close> computes on a buffer that is longer than
  the bytes read (lemma \<open>inner_scan\<close> below).
\<close>

fun scan :: "string \<Rightarrow> char \<Rightarrow> string \<Rightarrow> pstate \<Rightarrow> pstate" where
  "scan repl la [] st = st"
| "scan repl la (c # cs) st =
     scan repl la cs (step repl [c, (case cs of [] \<Rightarrow> la | d # _ \<Rightarrow> d)] 0 st)"

subsection \<open>The naive splitter of the specification\<close>

text \<open>
  The specification compares \<open>Parse\<close> with "naive split-and-trim-by-\<^verbatim>\<open>;\<close> minus
  trailing empty fragment". \<open>splitOn\<close> is \<^verbatim>\<open>strings.Split\<close> for a one-byte
  separator, \<open>trimSpace\<close> removes the white space at both ends, and \<open>naiveSplit\<close>
  follows the words of the specification, not the code.
\<close>

fun splitOn :: "char \<Rightarrow> string \<Rightarrow> string list" where
  "splitOn sep [] = [[]]"
| "splitOn sep (c # cs) =
     (if c = sep then [] # splitOn sep cs
      else (case splitOn sep cs of [] \<Rightarrow> [[c]] | f # fs \<Rightarrow> (c # f) # fs))"

definition isSpace :: "char \<Rightarrow> bool" where
  "isSpace c = (c \<in> {CHR '' '', CHR 0x09, CHR 0x0A, CHR 0x0B, CHR 0x0C, CHR 0x0D})"

definition trimSpace :: "string \<Rightarrow> string" where
  "trimSpace s = rev (dropWhile isSpace (rev (dropWhile isSpace s)))"

definition naiveSplit :: "string \<Rightarrow> string list" where
  "naiveSplit text =
     (let fs = map trimSpace (splitOn (CHR '';'') text)
      in if last fs = [] then butlast fs else fs)"

text \<open>The bytes that the splitter treats specially outside a function body.\<close>

definition special :: "char set" where
  "special = {CHR '';'', CHR ''$'', CHR ''-'', CHR ''/'', CHR 0x0A}"


section \<open>The position mapper\<close>

text \<open>
  Modelled from the spec: \<^verbatim>\<open>computeLineFromPos\<close> of the package postgresconn is
  not among the sources (only its test \<^verbatim>\<open>Test_computeLineFromPos\<close> is), so
  \<open>mapPosition\<close> follows section 4.2 of the specification. The text is given as its
  sequence of Unicode code points (10 is the line feed, 13 the carriage return). The
  loop keeps the position counter, the current line (from 1) and the counter value at
  which the current line began. A carriage return changes nothing. A line feed
  increments the line and makes the line start the position right after it. When the
  counter reaches \<open>pos\<close> the result is the line, the column (the counter minus the
  line start) and \<open>ok = True\<close>; at the end of the text it is \<open>(0, 0, False)\<close>.
\<close>

definition logical :: "nat list \<Rightarrow> nat list" where
  "logical text = filter (\<lambda>c. c \<noteq> 13) text"

fun mapLoop :: "int \<Rightarrow> nat \<Rightarrow> nat \<Rightarrow> nat \<Rightarrow> nat list \<Rightarrow> nat \<times> nat \<times> bool" where
  "mapLoop pos counter line lineStart [] = (0, 0, False)"
| "mapLoop pos counter line lineStart (c # cs) =
     (if c = 13 then mapLoop pos counter line lineStart cs
      else
        let counter' = counter + 1;
            line' = (if c = 10 then line + 1 else line);
            lineStart' = (if c = 10 then counter' else lineStart)
        in if int counter' = pos then (line', counter' - lineStart', True)
           else mapLoop pos counter' line' lineStart' cs)"

definition mapPosition :: "nat list \<Rightarrow> int \<Rightarrow> nat \<times> nat \<times> bool" where
  "mapPosition text pos = mapLoop pos 0 1 0 text"

text \<open>The code points of a text of one-byte characters.\<close>

definition codePoints :: "string \<Rightarrow> nat list" where
  "codePoints s = map of_char s"

section \<open>The migration driver\<close>

text \<open>
  Modelled from the spec: the driver (\<^verbatim>\<open>Begin\<close>, \<^verbatim>\<open>SetVersion\<close>, \<^verbatim>\<open>Run\<close>,
  \<^verbatim>\<open>Rollback\<close>, \<^verbatim>\<open>Version\<close> of postgresconn/postgres.go) is not among the sources
  (only its test \<^verbatim>\<open>TestBeginAndRollback\<close> is), so the model follows section 4.3
  of the specification. A database holds the tables of the active schema and the
  single row of the version table. The driver owns one connection: the committed
  database and, while a transaction is open, the working copy that the statements of
  the transaction see and change. The SQL engine and the statement splitter are
  parameters of \<open>Run\<close>: \<open>engine stmt db\<close> is the database after the statement, or
  \<open>None\<close> when the statement fails.
\<close>

record database =
  tables :: "string set"
  version_row :: "(int \<times> bool) option"

record driver =
  committed :: database
  tx :: "database option"

datatype driver_error = NoTransaction | TransactionOpen | StatementFailed string

text \<open>\<open>Begin\<close> opens the transaction of a run. (The specification has one transaction
  per run; the model refuses a second \<open>Begin\<close> while one is open.)\<close>

definition Begin :: "driver \<Rightarrow> driver_error + driver" where
  "Begin d = (case tx d of
                None \<Rightarrow> Inr (d\<lparr>tx := Some (committed d)\<rparr>)
              | Some w \<Rightarrow> Inl TransactionOpen)"

text \<open>\<open>SetVersion\<close> replaces the single row of the version table, inside the open
  transaction.\<close>

definition SetVersion :: "int \<Rightarrow> bool \<Rightarrow> driver \<Rightarrow> driver_error + driver" where
  "SetVersion v dirty d =
     (case tx d of
        None \<Rightarrow> Inl NoTransaction
      | Some w \<Rightarrow> Inr (d\<lparr>tx := Some (w\<lparr>version_row := Some (v, dirty)\<rparr>)\<rparr>))"

text \<open>The statements run in order on the working copy; the first failure stops the run.\<close>

fun execAll ::
  "(string \<Rightarrow> database \<Rightarrow> database option) \<Rightarrow> string list \<Rightarrow> database
   \<Rightarrow> driver_error option \<times> database" where
  "execAll engine [] w = (None, w)"
| "execAll engine (stmt # rest) w =
     (case engine stmt w of
        None \<Rightarrow> (Some (StatementFailed stmt), w)
      | Some w' \<Rightarrow> execAll engine rest w')"

text \<open>\<open>Run\<close> splits the script and executes its statements in the open transaction.
  A failure leaves the transaction open.\<close>

definition Run ::
  "(string \<Rightarrow> database \<Rightarrow> database option) \<Rightarrow> (string \<Rightarrow> string list) \<Rightarrow> string
   \<Rightarrow> driver \<Rightarrow> driver_error option \<times> driver" where
  "Run engine split script d =
     (case tx d of
        None \<Rightarrow> (Some NoTransaction, d)
      | Some w \<Rightarrow>
          (case execAll engine (split script) w of
             (err, w') \<Rightarrow> (err, d\<lparr>tx := Some w'\<rparr>)))"

text \<open>\<open>Rollback\<close> ends the transaction and undoes all of its writes.\<close>

definition Rollback :: "driver \<Rightarrow> driver_error + driver" where
  "Rollback d = (case tx d of
                   None \<Rightarrow> Inl NoTransaction
                 | Some w \<Rightarrow> Inr (d\<lparr>tx := None\<rparr>))"

text \<open>What a query on the driver's connection sees: the working copy of the open
  transaction, or else the committed database.\<close>

definition visible :: "driver \<Rightarrow> database" where
  "visible d = (case tx d of None \<Rightarrow> committed d | Some w \<Rightarrow> w)"

definition Version :: "driver \<Rightarrow> (int \<times> bool) option" where
  "Version d = version_row (visible d)"

text \<open>An engine for the examples: the statement \<^verbatim>\<open>CREATE TABLE t\<close> is given by the
  name \<open>t\<close> alone; creating a table that exists fails.\<close>

definition createTable :: "string \<Rightarrow> database \<Rightarrow> database option" where
  "createTable t db = (if t \<in> tables db then None else Some (db\<lparr>tables := insert t (tables db)\<rparr>))"

text \<open>A splitter for the examples: the whole script is one statement.\<close>

definition wholeScript :: "string \<Rightarrow> string list" where
  "wholeScript script = [script]"

section \<open>Properties of the splitter\<close>

subsection \<open>Delivery to the handler\<close>

lemma deliver_accepts:
  "accepts h s pre \<Longrightarrow>
   deliver h s (pre @ post) =
     (case deliver h (after h s pre) post of (called, r, s') \<Rightarrow> (pre @ called, r, s'))"
proof (induction pre arbitrary: s)
  case Nil
  show ?case by (simp split: prod.splits)
next
  case (Cons x pre)
  obtain r s1 where hx: "h s x = (r, s1)" by (cases "h s x")
  with Cons.prems have r: "r = None" and acc: "accepts h s1 pre" by simp_all
  show ?case using Cons.IH [OF acc] hx r by (simp split: prod.splits)
qed

text \<open>
  Claim C7. The statements are delivered in the order in which they were split. When the
  handler has accepted the statements \<open>pre\<close> and there is no further statement, \<open>Parse\<close>
  returns \<^verbatim>\<open>nil\<close> after calling the handler on exactly \<open>pre\<close>. When the handler
  fails with \<open>err\<close> on the next statement \<open>bad\<close>, \<open>Parse\<close> returns \<open>err\<close> wrapped with
  the text of \<open>bad\<close>, and the handler has been called on \<open>pre\<close> and \<open>bad\<close> and on no
  later statement.
\<close>

theorem Parse_delivers_in_order:
  assumes "readLoop ParseBufSize replacementStatement reader (init, []) = Stmts (pre @ post)"
    and "accepts h s pre"
  shows "(post = [] \<longrightarrow>
            Parse ParseBufSize reader replacementStatement h s
            = \<lparr>outcome = Return None, calls = pre, hstate = after h s pre\<rparr>)
       \<and> (\<forall>bad rest err s'. post = bad # rest \<and> h (after h s pre) bad = (Some err, s') \<longrightarrow>
            Parse ParseBufSize reader replacementStatement h s
            = \<lparr>outcome = Return (Some (Wrapf err bad)), calls = pre @ [bad], hstate = s'\<rparr>)"
  using assms(1) deliver_accepts [OF assms(2), of post]
  by (auto simp: Parse_def)

theorem Parse_delivers_in_order_witness:
  "Parse 16 (oneShot ''a;b;c;'') [] (failOn ''b;'' (7::nat)) 0
   = \<lparr>outcome = Return (Some (Wrapf (Err 7) ''b;'')), calls = [''a;'', ''b;''], hstate = 2\<rparr>
   \<and> Parse 16 (oneShot ''a;b;c;'') [] (failOn ''d;'' (7::nat)) 0
   = \<lparr>outcome = Return None, calls = [''a;'', ''b;'', ''c;''], hstate = 3\<rparr>"
proof -
  let ?rd = "oneShot ''a;b;c;'' :: nat read_result list"
  have r1: "readLoop 16 [] ?rd (init, []) = Stmts ([''a;''] @ [''b;'', ''c;''])"
    by code_simp
  have a1: "accepts (failOn ''b;'' (7::nat)) 0 [''a;'']"
    by (simp add: failOn_def)
  have r2: "readLoop 16 [] ?rd (init, []) = Stmts ([''a;'', ''b;'', ''c;''] @ [])"
    by code_simp
  have a2: "accepts (failOn ''d;'' (7::nat)) 0 [''a;'', ''b;'', ''c;'']"
    by (simp add: failOn_def)
  show ?thesis
    using Parse_delivers_in_order [OF r1 a1] Parse_delivers_in_order [OF r2 a2]
    by (simp add: failOn_def)
qed

subsection \<open>Read errors\<close>

lemma iteration_Some:
  "length (fst rd) \<le> B \<Longrightarrow> \<exists>s'. iteration B repl rd s = Some s'"
  by (cases rd; cases s) (simp add: iteration_def Let_def split: prod.splits)

lemma readLoop_fails:
  assumes "\<forall>rd\<in>set pre. snd rd = None \<and> length (fst rd) \<le> B"
    and "length data \<le> B" and "err \<noteq> EOF"
  shows "readLoop B repl (pre @ (data, Some err) # post) s = ReadFailed err"
  using assms(1)
proof (induction pre arbitrary: s)
  case Nil
  obtain s' where "iteration B repl (data, Some err) s = Some s'"
    using iteration_Some [of "(data, Some err)" B repl s] assms(2) by auto
  then show ?case using assms(3) by (cases err) (simp_all split: prod.splits)
next
  case (Cons rd pre)
  obtain d where rd: "rd = (d, None)" and len: "length d \<le> B"
    using Cons.prems by (cases rd) auto
  obtain s' where it: "iteration B repl rd s = Some s'"
    using iteration_Some [of rd B repl s] len rd by auto
  have "readLoop B repl (pre @ (data, Some err) # post) s' = ReadFailed err"
    using Cons.IH Cons.prems by simp
  then show ?case using it rd by (cases s') simp
qed

text \<open>
  Claim C8. When a read fails with an error other than \<^verbatim>\<open>io.EOF\<close> (the reads before
  it returned \<^verbatim>\<open>nil\<close>, and no read returned more bytes than the buffer holds),
  \<open>Parse\<close> returns that very error, with nothing wrapped around it, whatever the reader
  would have returned afterwards.
\<close>

theorem Parse_read_error_unwrapped:
  assumes "\<forall>rd\<in>set pre. snd rd = None \<and> length (fst rd) \<le> ParseBufSize"
    and "length data \<le> ParseBufSize" and "err \<noteq> EOF"
  shows "outcome (Parse ParseBufSize (pre @ (data, Some err) # post) replacementStatement h s)
         = Return (Some err)"
  using readLoop_fails [OF assms] by (simp add: Parse_def)

theorem Parse_read_error_unwrapped_witness:
  "outcome (Parse 8 ([(''a;b'', None), (''c;'', None)] @ (''d;'', Some (Err (5::nat)))
                       # [(''e;'', Some EOF)]) ''x'' accept 0)
   = Return (Some (Err 5))"
  using Parse_read_error_unwrapped [of "[(''a;b'', None), (''c;'', None)]" 8 "''d;''"
      "Err (5::nat)" "[(''e;'', Some EOF)]" "''x''" accept 0]
  by simp

text \<open>
  Claim C10. The handler is called only after the read loop has ended: when a read
  fails with an error other than \<^verbatim>\<open>io.EOF\<close>, the handler is not called at all and
  its state is untouched, also when earlier reads held complete statements.
\<close>

theorem Parse_read_error_no_handler_call:
  assumes "\<forall>rd\<in>set pre. snd rd = None \<and> length (fst rd) \<le> ParseBufSize"
    and "length data \<le> ParseBufSize" and "err \<noteq> EOF"
  shows "calls (Parse ParseBufSize (pre @ (data, Some err) # post) replacementStatement h s) = []
       \<and> hstate (Parse ParseBufSize (pre @ (data, Some err) # post) replacementStatement h s) = s"
  using readLoop_fails [OF assms] by (simp add: Parse_def)

theorem Parse_read_error_no_handler_call_witness:
  "calls (Parse 8 ([(''a;b;'', None)] @ (''c;'', Some (Err (5::nat))) # []) [] accept 0) = []
   \<and> hstate (Parse 8 ([(''a;b;'', None)] @ (''c;'', Some (Err (5::nat))) # []) [] accept 0) = 0
   \<and> calls (Parse 8 [(''a;b;'', None), (''c;'', Some EOF)] [] (accept :: (nat, nat) handler) 0)
     = [''a;'', ''b;'', ''c;'']"
  using Parse_read_error_no_handler_call [of "[(''a;b;'', None)]" 8 "''c;''" "Err (5::nat)"
      "[]" "[]" accept 0]
  by (simp, code_simp)

subsection \<open>Chunk boundaries\<close>

text \<open>
  A byte that is in \<^verbatim>\<open>tmp\<close> when the reader reports \<^verbatim>\<open>(0, io.EOF)\<close> is put into
  a buffer of length 1, carried into \<^verbatim>\<open>tmp\<close> again and never handled, whatever the
  byte and the buffer size are.
\<close>

lemma carried_byte_lost_at_EOF:
  "readLoop B repl [([], Some EOF)] (st, [c]) = Stmts (stmts st)"
  by (simp add: iteration_def inner.simps)

text \<open>
  Claim C1. The statements depend on the buffer size and on how the reader cuts the
  bytes. The reads \<^verbatim>\<open>("abc;", nil)\<close>, \<^verbatim>\<open>(0, io.EOF)\<close> are what
  \<^verbatim>\<open>strings.NewReader("abc;")\<close> returns for a buffer of 4 bytes and for one of 5.
  With 5 the statement \<^verbatim>\<open>abc;\<close> is delivered. With 4 the last byte is carried into
  \<^verbatim>\<open>tmp\<close>, carried again at the read that reports \<^verbatim>\<open>io.EOF\<close>, and lost: nothing
  is delivered. With one buffer size, the bytes \<^verbatim>\<open>a--b;\<close> read at once are a
  comment, and read as \<^verbatim>\<open>a-\<close> and \<^verbatim>\<open>-b;\<close> they are the statement \<^verbatim>\<open>a--b;\<close>,
  since a read shorter than the buffer carries nothing over.
\<close>

theorem Parse_depends_on_chunks:
  "calls (Parse 5 (oneShot ''abc;'') [] (accept :: (unit, nat) handler) 0) = [''abc;'']
   \<and> calls (Parse 4 (oneShot ''abc;'') [] (accept :: (unit, nat) handler) 0) = []
   \<and> calls (Parse 8 [(''a--b;'', None), ([], Some EOF)] [] (accept :: (unit, nat) handler) 0) = []
   \<and> calls (Parse 8 [(''a-'', None), (''-b;'', None), ([], Some EOF)] []
       (accept :: (unit, nat) handler) 0) = [''a--b;'']"
  by code_simp

subsection \<open>Line comments\<close>

text \<open>
  Claim C3. A \<^verbatim>\<open>$$\<close> inside a line comment toggles \<open>fnbody\<close> although the comment
  is being discarded. In the text \<^verbatim>\<open>--$$;\<close>, line feed, \<^verbatim>\<open>a;$$;\<close> the first
  \<^verbatim>\<open>;\<close> is read in comment mode and is still copied into the statement, and the
  \<^verbatim>\<open>;\<close> after \<^verbatim>\<open>a\<close> on the next line does not terminate a statement: the one
  statement delivered is \<^verbatim>\<open>;\<close>, line feed, \<^verbatim>\<open>a;$$;\<close>.
\<close>

theorem Parse_comment_with_dollars:
  "calls (Parse 1024 (oneShot (''--$$;'' @ [CHR 0x0A] @ ''a;$$;'')) []
      (accept :: (unit, nat) handler) 0)
   = ['';'' @ [CHR 0x0A] @ ''a;$$;'']"
  by code_simp

subsection \<open>One read that is shorter than the buffer\<close>

lemma step_pair:
  "i + 1 < length buf \<Longrightarrow> step repl buf i st = step repl [buf ! i, buf ! (i + 1)] 0 st"
proof -
  assume a: "i + 1 < length buf"
  then have b: "1 < length buf" "i + 1 \<le> length buf" by simp_all
  show ?thesis using a b by (simp add: step_def Let_def)
qed

lemma inner_scan:
  "n < length buf \<Longrightarrow> i \<le> n \<Longrightarrow>
   inner repl buf n i st = (scan repl (buf ! n) (drop i (take n buf)) st, [])"
proof (induction "n - i" arbitrary: i st)
  case 0
  then show ?case by (simp add: inner.simps)
next
  case (Suc k)
  then have lt: "i < n" and len: "i + 1 < length buf" by simp_all
  have dr: "drop i (take n buf) = buf ! i # drop (Suc i) (take n buf)"
    using lt Suc.prems Cons_nth_drop_Suc [of i "take n buf"] by simp
  have la: "(case drop (Suc i) (take n buf) of [] \<Rightarrow> buf ! n | d # _ \<Rightarrow> d) = buf ! (i + 1)"
  proof (cases "Suc i = n")
    case True
    then show ?thesis by simp
  next
    case False
    with lt have "Suc i < n" by simp
    then have "drop (Suc i) (take n buf) = buf ! Suc i # drop (Suc (Suc i)) (take n buf)"
      using Suc.prems Cons_nth_drop_Suc [of "Suc i" "take n buf"] by simp
    then show ?thesis by simp
  qed
  have "inner repl buf n i st = inner repl buf n (i + 1) (step repl buf i st)"
    using lt len by (subst inner.simps) simp
  also have "\<dots> = (scan repl (buf ! n) (drop (i + 1) (take n buf)) (step repl buf i st), [])"
    using Suc.hyps(1) [of "i + 1" "step repl buf i st"] Suc.hyps(2) Suc.prems lt by simp
  finally show ?case using dr la step_pair [OF len, of repl st] by simp
qed

lemma iteration_short:
  assumes "length data < B"
  shows "iteration B repl (data, e) (st, []) = Some (scan repl (CHR 0x00) data st, [])"
proof (cases "data = []")
  case True
  then show ?thesis by (simp add: iteration_def)
next
  case False
  let ?buf = "data @ replicate (B - length data) (CHR 0x00)"
  have "inner repl ?buf (length data) 0 st
        = (scan repl (?buf ! length data) (drop 0 (take (length data) ?buf)) st, [])"
    using assms by (intro inner_scan) simp_all
  moreover have "?buf ! length data = CHR 0x00"
    using assms by (simp add: nth_append)
  ultimately show ?thesis using assms False by (simp add: iteration_def)
qed

lemma readLoop_oneShot:
  assumes "length data < B"
  shows "readLoop B repl (oneShot data) (init, [])
         = Stmts (stmts (scan repl (CHR 0x00) data init))"
proof -
  have B: "length ([] :: string) < B" using assms by simp
  show ?thesis
    by (simp add: oneShot_def iteration_short [OF assms] iteration_short [OF B])
qed

lemma scan_snoc:
  "scan repl la (cs @ [c]) st = step repl [c, la] 0 (scan repl c cs st)"
proof (induction cs arbitrary: st)
  case Nil
  show ?case by simp
next
  case (Cons x cs)
  show ?case using Cons.IH by (cases cs) simp_all
qed

lemma scan_append:
  "ys \<noteq> [] \<Longrightarrow> scan repl la (xs @ ys) st = scan repl la ys (scan repl (hd ys) xs st)"
proof (induction xs arbitrary: st)
  case Nil
  show ?case by simp
next
  case (Cons x xs)
  show ?case using Cons.IH [OF Cons.prems] Cons.prems by (cases xs; cases ys) simp_all
qed

lemma Parse_oneShot:
  assumes "length data < B"
  shows "Parse B (oneShot data) repl h s
         = (case deliver h s (stmts (scan repl (CHR 0x00) data init)) of
              (called, r, s') \<Rightarrow> \<lparr>outcome = Return r, calls = called, hstate = s'\<rparr>)"
  by (simp add: Parse_def readLoop_oneShot [OF assms])

lemma Parse_oneShot_calls:
  assumes "length data < B"
  shows "calls (Parse B (oneShot data) repl h s)
         = fst (deliver h s (stmts (scan repl (CHR 0x00) data init)))"
  by (simp add: Parse_oneShot [OF assms] split: prod.splits)

subsection \<open>Function bodies\<close>

lemma step_in_body_semicolon:
  "fnbody st \<Longrightarrow> buf ! i = CHR '';'' \<Longrightarrow>
   step repl buf i st = st\<lparr>accum := accum st @ [CHR '';'']\<rparr>"
  by (simp add: step_def Let_def)

lemma step_plain:
  "\<not> fnbody st \<Longrightarrow> \<not> discard st \<Longrightarrow> c \<notin> special \<Longrightarrow>
   step repl [c, la] 0 st = st\<lparr>accum := accum st @ [c]\<rparr>"
  by (simp add: step_def special_def)

lemma scan_plain:
  "\<not> fnbody st \<Longrightarrow> \<not> discard st \<Longrightarrow> set cs \<inter> special = {} \<Longrightarrow>
   scan repl la cs st = st\<lparr>accum := accum st @ cs\<rparr>"
proof (induction cs arbitrary: st)
  case Nil
  show ?case by simp
next
  case (Cons c cs)
  let ?st = "st\<lparr>accum := accum st @ [c]\<rparr>"
  have c: "c \<notin> special" and cs: "set cs \<inter> special = {}" using Cons.prems(3) by auto
  have "scan repl la (c # cs) st = scan repl la cs ?st"
    using step_plain [OF Cons.prems(1,2) c] by simp
  also have "\<dots> = ?st\<lparr>accum := accum ?st @ cs\<rparr>"
    using Cons.prems(1,2) cs by (intro Cons.IH) simp_all
  finally show ?case by simp
qed

lemma step_body:
  "fnbody st \<Longrightarrow> \<not> discard st \<Longrightarrow> \<not> (c = CHR ''$'' \<and> la = CHR ''$'') \<Longrightarrow>
   step repl [c, la] 0 st = st\<lparr>accum := accum st @ [c]\<rparr>"
  by (auto simp: step_def)

lemma scan_body:
  "fnbody st \<Longrightarrow> \<not> discard st \<Longrightarrow> \<not> sublist ''$$'' (cs @ [la]) \<Longrightarrow>
   scan repl la cs st = st\<lparr>accum := accum st @ cs\<rparr>"
proof (induction cs arbitrary: st)
  case Nil
  show ?case by simp
next
  case (Cons c cs)
  let ?nx = "case cs of [] \<Rightarrow> la | d # _ \<Rightarrow> d"
  let ?st = "st\<lparr>accum := accum st @ [c]\<rparr>"
  have pre: "\<not> prefix ''$$'' (c # cs @ [la])" and rest: "\<not> sublist ''$$'' (cs @ [la])"
    using Cons.prems(3) by (simp_all add: sublist_Cons_right)
  have "\<not> (c = CHR ''$'' \<and> ?nx = CHR ''$'')"
    using pre by (cases cs) auto
  then have "scan repl la (c # cs) st = scan repl la cs ?st"
    using step_body [OF Cons.prems(1,2)] by simp
  also have "\<dots> = ?st\<lparr>accum := accum ?st @ cs\<rparr>"
    using Cons.prems(1,2) rest by (intro Cons.IH) simp_all
  finally show ?case by simp
qed


lemma scan_body_region:
  assumes body: "body \<noteq> []" "hd body \<noteq> CHR ''$''" "last body \<noteq> CHR ''$''"
      "\<not> sublist ''$$'' body"
    and st: "\<not> fnbody st" "\<not> discard st" and la: "la \<noteq> CHR ''$''"
  shows "scan repl la (''$$'' @ body @ ''$$'') st
         = st\<lparr>accum := accum st @ ''$$'' @ body @ ''$$''\<rparr>"
proof -
  let ?D = "CHR ''$''"
  let ?X = "body @ [?D, ?D]"
  obtain a ss where s0: "st = \<lparr>discard = False, fnbody = False, accum = a, stmts = ss\<rparr>"
    using st by (cases st) auto
  let ?sb = "\<lparr>discard = False, fnbody = True, accum = a @ [?D], stmts = ss\<rparr>"
  let ?sc = "\<lparr>discard = False, fnbody = True, accum = a @ [?D, ?D], stmts = ss\<rparr>"
  let ?sd = "\<lparr>discard = False, fnbody = True, accum = a @ [?D, ?D] @ body, stmts = ss\<rparr>"
  let ?se = "\<lparr>discard = False, fnbody = False, accum = a @ [?D, ?D] @ body @ [?D],
              stmts = ss\<rparr>"
  let ?sf = "\<lparr>discard = False, fnbody = False, accum = a @ [?D, ?D] @ body @ [?D, ?D],
              stmts = ss\<rparr>"
  have b: "step repl [?D, ?D] 0 st = ?sb"
    by (simp add: s0 step_def Let_def)
  have hdX: "(case ?X of [] \<Rightarrow> la | d # _ \<Rightarrow> d) = hd body"
    using body(1) by (cases body) simp_all
  have c: "step repl [?D, hd body] 0 ?sb = ?sc"
    using body(2) by (simp add: step_def Let_def)
  have "\<not> suffix ''$$'' (body @ [?D])"
    using body(1,3) snoc_suffix_snoc [of "[?D]" ?D body ?D] by (auto simp: suffix_def)
  then have nd: "\<not> sublist ''$$'' (body @ [?D])"
    using body(4) by (simp add: sublist_snoc)
  have d: "scan repl ?D body ?sc = ?sd"
    using scan_body [of ?sc body ?D repl] nd by simp
  have e: "step repl [?D, ?D] 0 ?sd = ?se"
    by (simp add: step_def Let_def)
  have f: "step repl [?D, la] 0 ?se = ?sf"
    using la by (simp add: step_def Let_def)
  have "scan repl la (?D # ?D # ?X) st = scan repl la (?D # ?X) ?sb"
    using b by simp
  also have "\<dots> = scan repl la ?X ?sc"
    using c hdX by simp
  also have "\<dots> = scan repl la [?D, ?D] ?sd"
    using scan_append [of "[?D, ?D]" repl la body ?sc] d by simp
  also have "\<dots> = ?sf"
    using e f by simp
  finally show ?thesis by (simp add: s0)
qed

lemma scan_dollar_body:
  assumes pre: "set pre \<inter> special = {}" and post: "set post \<inter> special = {}"
    and body: "body \<noteq> []" "hd body \<noteq> CHR ''$''" "last body \<noteq> CHR ''$''"
      "\<not> sublist ''$$'' body"
  shows "scan [] la (pre @ ''$$'' @ body @ ''$$'' @ post @ '';'') init
         = \<lparr>discard = False, fnbody = False, accum = [],
            stmts = [pre @ ''$$'' @ body @ ''$$'' @ post @ '';'']\<rparr>"
proof -
  let ?D = "CHR ''$''" and ?S = "CHR '';''"
  let ?R = "''$$'' @ body @ ''$$''"
  let ?Y = "post @ [?S]"
  let ?sa = "\<lparr>discard = False, fnbody = False, accum = pre, stmts = []\<rparr>"
  let ?sf = "\<lparr>discard = False, fnbody = False, accum = pre @ ?R, stmts = []\<rparr>"
  let ?sg = "\<lparr>discard = False, fnbody = False, accum = pre @ ?R @ post, stmts = []\<rparr>"
  have a: "scan [] ?D pre init = ?sa"
    using scan_plain [of init pre "[]" ?D] pre by (simp add: init_def)
  have "hd ?Y \<notin> {?D}"
    using post by (cases post) (auto simp: special_def)
  then have hdY: "hd ?Y \<noteq> ?D" by simp
  have r: "scan [] (hd ?Y) ?R ?sa = ?sf"
    using scan_body_region [OF body, of ?sa "hd ?Y" "[]"] hdY by simp
  have g: "scan [] ?S post ?sf = ?sg"
    using scan_plain [of ?sf post "[]" ?S] post by simp
  have h: "step [] [?S, la] 0 ?sg
           = \<lparr>discard = False, fnbody = False, accum = [],
              stmts = [pre @ ?R @ post @ [?S]]\<rparr>"
    by (simp add: step_def Let_def)
  have "scan [] la (pre @ ?R @ ?Y) init = scan [] la (?R @ ?Y) ?sa"
    using scan_append [of "?R @ ?Y" "[]" la pre init] a by simp
  also have "\<dots> = scan [] la ?Y ?sf"
    using scan_append [of ?Y "[]" la ?R ?sa] r by simp
  also have "\<dots> = step [] [?S, la] 0 ?sg"
    using scan_snoc [of "[]" la post ?S ?sf] g by simp
  finally show ?thesis using h by simp
qed

lemma deliver_single: "fst (deliver h s [x]) = [x]"
  by (simp split: prod.splits option.splits)

text \<open>
  What does hold of function bodies. Inside a function body every \<^verbatim>\<open>;\<close> is copied
  into \<open>accum\<close> and ends no statement, at every position of every buffer. For a body
  that holds no \<^verbatim>\<open>$$\<close> and neither starts nor ends with \<^verbatim>\<open>$\<close>: reached outside a
  body and outside a comment, the bytes \<^verbatim>\<open>$$\<close>, \<open>body\<close>, \<^verbatim>\<open>$$\<close> are copied into
  \<open>accum\<close> as they are, no statement is completed and the scan is outside a body
  again. For a text read at once (shorter than the buffer) that consists of \<open>pre\<close>,
  \<^verbatim>\<open>$$\<close>, \<open>body\<close>, \<^verbatim>\<open>$$\<close>, \<open>post\<close> and a final \<^verbatim>\<open>;\<close>, where \<open>pre\<close> and \<open>post\<close>
  hold none of the bytes \<^verbatim>\<open>; $ - /\<close> and no line feed, \<open>Parse\<close> calls the handler
  once, with the whole text.
\<close>

lemma dollar_body_one_chunk:
  assumes "body \<noteq> []" and "hd body \<noteq> CHR ''$''" and "last body \<noteq> CHR ''$''"
    and "\<not> sublist ''$$'' body"
  shows "(\<forall>repl buf i st. fnbody st \<and> buf ! i = CHR '';'' \<longrightarrow>
            step repl buf i st = st\<lparr>accum := accum st @ [CHR '';'']\<rparr>)
       \<and> (\<forall>repl la st. \<not> fnbody st \<and> \<not> discard st \<and> la \<noteq> CHR ''$'' \<longrightarrow>
            scan repl la (''$$'' @ body @ ''$$'') st
            = st\<lparr>accum := accum st @ ''$$'' @ body @ ''$$''\<rparr>)
       \<and> (set pre \<inter> special = {} \<and> set post \<inter> special = {}
            \<and> length (pre @ ''$$'' @ body @ ''$$'' @ post @ '';'') < ParseBufSize \<longrightarrow>
            calls (Parse ParseBufSize (oneShot (pre @ ''$$'' @ body @ ''$$'' @ post @ '';''))
                     [] h s)
            = [pre @ ''$$'' @ body @ ''$$'' @ post @ '';''])"
proof -
  let ?text = "pre @ ''$$'' @ body @ ''$$'' @ post @ '';''"
  have "calls (Parse ParseBufSize (oneShot ?text) [] h s) = [?text]"
    if "set pre \<inter> special = {}" "set post \<inter> special = {}" "length ?text < ParseBufSize"
  proof -
    have "calls (Parse ParseBufSize (oneShot ?text) [] h s) = fst (deliver h s [?text])"
      using Parse_oneShot_calls [OF that(3), of "[]" h s]
        scan_dollar_body [OF that(1,2) assms]
      by simp
    then show ?thesis using deliver_single [of h s ?text] by simp
  qed
  then show ?thesis
    using step_in_body_semicolon scan_body_region [OF assms] by blast
qed

lemma dollar_body_one_chunk_example:
  "calls (Parse 1024 (oneShot (''CREATE FUNCTION f() AS '' @ ''$$''
            @ '' BEGIN a; b; END '' @ ''$$'' @ '' LANGUAGE plpgsql'' @ '';'')) []
            (accept :: (unit, nat) handler) 0)
   = [''CREATE FUNCTION f() AS '' @ ''$$'' @ '' BEGIN a; b; END '' @ ''$$''
        @ '' LANGUAGE plpgsql'' @ '';'']
   \<and> step [] ''a;b'' 1 \<lparr>discard = False, fnbody = True, accum = ''a'', stmts = []\<rparr>
     = \<lparr>discard = False, fnbody = True, accum = ''a;'', stmts = []\<rparr>
   \<and> scan [] (CHR '' '') (''$$'' @ '' BEGIN a; b; END '' @ ''$$'')
        \<lparr>discard = False, fnbody = False, accum = ''AS '', stmts = []\<rparr>
     = \<lparr>discard = False, fnbody = False,
        accum = ''AS '' @ ''$$'' @ '' BEGIN a; b; END '' @ ''$$'', stmts = []\<rparr>"
proof -
  have 1: "set ''CREATE FUNCTION f() AS '' \<inter> special = {}
           \<and> set '' LANGUAGE plpgsql'' \<inter> special = {}
           \<and> length (''CREATE FUNCTION f() AS '' @ ''$$'' @ '' BEGIN a; b; END '' @ ''$$''
                @ '' LANGUAGE plpgsql'' @ '';'') < (1024::nat)"
    by (simp add: special_def)
  have 3: "'' BEGIN a; b; END '' \<noteq> []" "hd '' BEGIN a; b; END '' \<noteq> CHR ''$''"
    "last '' BEGIN a; b; END '' \<noteq> CHR ''$''"
    by simp_all
  have 4: "\<not> sublist ''$$'' '' BEGIN a; b; END ''"
    by code_simp
  note T = dollar_body_one_chunk [OF 3 4, of "''CREATE FUNCTION f() AS ''"
      "'' LANGUAGE plpgsql''" 1024 "accept :: (unit, nat) handler" 0]
  have a: "step [] ''a;b'' 1 \<lparr>discard = False, fnbody = True, accum = ''a'', stmts = []\<rparr>
     = \<lparr>discard = False, fnbody = True, accum = ''a;'', stmts = []\<rparr>"
    using T [THEN conjunct1, rule_format,
        of "\<lparr>discard = False, fnbody = True, accum = ''a'', stmts = []\<rparr>" "''a;b''" 1 "[]"]
    by simp
  have b: "scan [] (CHR '' '') (''$$'' @ '' BEGIN a; b; END '' @ ''$$'')
        \<lparr>discard = False, fnbody = False, accum = ''AS '', stmts = []\<rparr>
     = \<lparr>discard = False, fnbody = False,
        accum = ''AS '' @ ''$$'' @ '' BEGIN a; b; END '' @ ''$$'', stmts = []\<rparr>"
    using T [THEN conjunct2, THEN conjunct1, rule_format,
        of "\<lparr>discard = False, fnbody = False, accum = ''AS '', stmts = []\<rparr>" "CHR '' ''" "[]"]
    by simp
  show ?thesis
    using T [THEN conjunct2, THEN conjunct2] 1 a b by blast
qed

text \<open>
  Claim C2. A function body delimited by \<^verbatim>\<open>$$\<close> that encloses \<^verbatim>\<open>;\<close> is split in
  three ways. A \<^verbatim>\<open>$$\<close> in a line comment in front of the function toggles \<open>fnbody\<close>
  although the comment is discarded, so the real opening \<^verbatim>\<open>$$\<close> ends the body: the
  text \<^verbatim>\<open>-- uses $$ quoting\<close>, line feed,
  \<^verbatim>\<open>CREATE FUNCTION f() AS $$ BEGIN a; b; END $$ LANGUAGE plpgsql;\<close> is delivered as two
  statements that end at the two \<^verbatim>\<open>;\<close> of the body, and the rest is lost. A body
  that starts with \<^verbatim>\<open>$\<close> is toggled twice, since the second \<^verbatim>\<open>$\<close> of the opening
  marker is looked at again as the first of a pair: \<^verbatim>\<open>f $$$1;a$$;\<close> is delivered as
  \<^verbatim>\<open>f $$$1;\<close>. A read shorter than the buffer that ends between the two \<^verbatim>\<open>$\<close>
  carries nothing over, so the marker is not seen: the reads \<^verbatim>\<open>f $\<close> and
  \<^verbatim>\<open>$ a; b $$;\<close> deliver \<^verbatim>\<open>f $$ a;\<close>.
\<close>

theorem Parse_splits_dollar_body:
  "calls (Parse 1024 (oneShot (''-- uses $$ quoting'' @ [CHR 0x0A]
            @ ''CREATE FUNCTION f() AS $$ BEGIN a; b; END $$ LANGUAGE plpgsql;'')) []
            (accept :: (unit, nat) handler) 0)
   = [[CHR 0x0A] @ ''CREATE FUNCTION f() AS $$ BEGIN a;'', '' b;'']
   \<and> calls (Parse 1024 (oneShot ''f $$$1;a$$;'') [] (accept :: (unit, nat) handler) 0)
     = [''f $$$1;'']
   \<and> calls (Parse 1024 [(''f $'', None), (''$ a; b $$;'', None), ([], Some EOF)] []
            (accept :: (unit, nat) handler) 0)
     = [''f $$ a;'']
   \<and> calls (Parse 1024 (oneShot ''f $$ a; b $$;'') [] (accept :: (unit, nat) handler) 0)
     = [''f $$ a; b $$;'']"
  by code_simp

subsection \<open>Text without markers\<close>

lemma splitOn_nonempty: "splitOn sep cs \<noteq> []"
  by (induction cs) (auto split: list.splits)

lemma splitOn_snoc:
  "splitOn sep (cs @ [c]) =
     (if c = sep then splitOn sep cs @ [[]]
      else butlast (splitOn sep cs) @ [last (splitOn sep cs) @ [c]])"
proof (induction cs)
  case Nil
  show ?case by simp
next
  case (Cons x cs)
  obtain f fs where fs: "splitOn sep cs = f # fs"
    using splitOn_nonempty [of sep cs] by (cases "splitOn sep cs") auto
  show ?case using Cons.IH fs by (auto split: list.splits)
qed

lemma splitOn_filter:
  "x \<noteq> sep \<Longrightarrow>
   splitOn sep (filter (\<lambda>c. c \<noteq> x) cs) = map (filter (\<lambda>c. c \<noteq> x)) (splitOn sep cs)"
proof (induction cs)
  case Nil
  show ?case by simp
next
  case (Cons c cs)
  obtain f fs where fs: "splitOn sep cs = f # fs"
    using splitOn_nonempty [of sep cs] by (cases "splitOn sep cs") auto
  show ?case using Cons fs by auto
qed

lemma step_no_marker:
  assumes "\<not> fnbody st" and "\<not> discard st"
    and "\<not> (c = CHR ''-'' \<and> la = CHR ''-'')" and "\<not> (c = CHR ''/'' \<and> la = CHR ''/'')"
    and "\<not> (c = CHR ''$'' \<and> la = CHR ''$'')"
  shows "step [] [c, la] 0 st =
     (if c = CHR '';'' then st\<lparr>stmts := stmts st @ [accum st @ [c]], accum := []\<rparr>
      else if c = CHR 0x0A then st
      else st\<lparr>accum := accum st @ [c]\<rparr>)"
  using assms by (cases st) (auto simp: step_def Let_def)

lemma no_marker_snoc:
  assumes "\<not> sublist [a, b] (cs @ [c, la])"
  shows "\<not> sublist [a, b] (cs @ [c])" and "\<not> (c = a \<and> la = b)"
proof -
  have eq: "cs @ [c, la] = (cs @ [c]) @ [la]" by simp
  show "\<not> sublist [a, b] (cs @ [c])"
    using assms unfolding eq sublist_snoc [of "[a, b]" "cs @ [c]" la] by simp
  have "suffix [a, b] (cs @ [a, b])" by (simp add: suffix_def)
  then show "\<not> (c = a \<and> la = b)"
    using assms unfolding eq sublist_snoc [of "[a, b]" "cs @ [c]" la] by auto
qed

lemma no_marker_zero:
  assumes "\<not> sublist [a, b] cs" and "b \<noteq> z"
  shows "\<not> sublist [a, b] (cs @ [z])"
  using assms snoc_suffix_snoc [of "[a]" b cs z] by (simp add: sublist_snoc)

lemma scan_no_markers:
  "\<not> sublist ''--'' (cs @ [la]) \<Longrightarrow> \<not> sublist ''//'' (cs @ [la])
   \<Longrightarrow> \<not> sublist ''$$'' (cs @ [la]) \<Longrightarrow>
   scan [] la cs init =
     \<lparr>discard = False, fnbody = False,
      accum = last (splitOn (CHR '';'') (filter (\<lambda>c. c \<noteq> CHR 0x0A) cs)),
      stmts = map (\<lambda>f. f @ '';'')
                (butlast (splitOn (CHR '';'') (filter (\<lambda>c. c \<noteq> CHR 0x0A) cs)))\<rparr>"
proof (induction cs arbitrary: la rule: rev_induct)
  case Nil
  show ?case by (simp add: init_def)
next
  case (snoc c cs)
  let ?fs = "splitOn (CHR '';'') (filter (\<lambda>c. c \<noteq> CHR 0x0A) cs)"
  let ?st = "\<lparr>discard = False, fnbody = False, accum = last ?fs,
              stmts = map (\<lambda>f. f @ '';'') (butlast ?fs)\<rparr>"
  have m: "\<not> sublist ''--'' (cs @ [c, la])" "\<not> sublist ''//'' (cs @ [c, la])"
    "\<not> sublist ''$$'' (cs @ [c, la])"
    using snoc.prems by simp_all
  have st: "scan [] c cs init = ?st"
    using no_marker_snoc(1) [OF m(1)] no_marker_snoc(1) [OF m(2)] no_marker_snoc(1) [OF m(3)]
    by (intro snoc.IH)
  have ne: "?fs \<noteq> []" by (rule splitOn_nonempty)
  have "scan [] la (cs @ [c]) init = step [] [c, la] 0 ?st"
    using scan_snoc [of "[]" la cs c init] st by simp
  also have "\<dots> =
     (if c = CHR '';'' then ?st\<lparr>stmts := stmts ?st @ [accum ?st @ [c]], accum := []\<rparr>
      else if c = CHR 0x0A then ?st
      else ?st\<lparr>accum := accum ?st @ [c]\<rparr>)"
    using no_marker_snoc(2) [OF m(1)] no_marker_snoc(2) [OF m(2)] no_marker_snoc(2) [OF m(3)]
    by (intro step_no_marker) simp_all
  finally have r: "scan [] la (cs @ [c]) init =
     (if c = CHR '';'' then ?st\<lparr>stmts := stmts ?st @ [accum ?st @ [c]], accum := []\<rparr>
      else if c = CHR 0x0A then ?st
      else ?st\<lparr>accum := accum ?st @ [c]\<rparr>)" .
  have semi: "map (\<lambda>f. f @ '';'') (butlast ?fs) @ [last ?fs @ '';''] = map (\<lambda>f. f @ '';'') ?fs"
    using ne append_butlast_last_id [OF ne] map_append [of "\<lambda>f. f @ '';''" "butlast ?fs" "[last ?fs]"]
    by simp
  show ?case
  proof (cases "c = CHR '';''")
    case True
    then show ?thesis using r semi by (simp add: splitOn_snoc)
  next
    case False
    show ?thesis
    proof (cases "c = CHR 0x0A")
      case True
      then show ?thesis using r by simp
    next
      case nl: False
      then show ?thesis using r False ne by (simp add: splitOn_snoc butlast_append)
    qed
  qed
qed

lemma deliver_accept: "deliver accept s ss = (ss, None, s + length ss)"
  by (induction ss arbitrary: s) (simp_all add: accept_def)

text \<open>
  Claim C5, as it is stated, fails: for the text \<^verbatim>\<open> a\<close>, line feed, \<^verbatim>\<open>b;c\<close>, which has
  no marker, the naive splitter of the specification yields \<^verbatim>\<open>a\<close>, line feed,
  \<^verbatim>\<open>b\<close> and \<^verbatim>\<open>c\<close>, while \<open>Parse\<close> delivers the single statement \<^verbatim>\<open> ab;\<close>: it
  keeps the \<^verbatim>\<open>;\<close> and the leading blank, removes the line feed and drops the
  fragment after the last \<^verbatim>\<open>;\<close>.
\<close>

theorem Parse_not_naiveSplit:
  "calls (Parse 1024 (oneShot ('' a'' @ [CHR 0x0A] @ ''b;c'')) []
            (accept :: (unit, nat) handler) 0)
   \<noteq> naiveSplit ('' a'' @ [CHR 0x0A] @ ''b;c'')
   \<and> calls (Parse 1024 (oneShot ('' a'' @ [CHR 0x0A] @ ''b;c'')) []
            (accept :: (unit, nat) handler) 0) = ['' ab;'']
   \<and> naiveSplit ('' a'' @ [CHR 0x0A] @ ''b;c'') = [''a'' @ [CHR 0x0A] @ ''b'', ''c'']
   \<and> \<not> sublist ''--'' ('' a'' @ [CHR 0x0A] @ ''b;c'')
   \<and> \<not> sublist ''//'' ('' a'' @ [CHR 0x0A] @ ''b;c'')
   \<and> \<not> sublist ''$$'' ('' a'' @ [CHR 0x0A] @ ''b;c'')"
  by code_simp

text \<open>
  Claim C5, amended. For a text without \<^verbatim>\<open>--\<close>, \<^verbatim>\<open>//\<close> and \<^verbatim>\<open>$$\<close>, read at once
  (shorter than the buffer) and without replacement, \<open>Parse\<close> delivers one statement
  for each \<^verbatim>\<open>;\<close> of the text: the fragment in front of that \<^verbatim>\<open>;\<close> with its line
  feeds removed and nothing else trimmed, followed by the \<^verbatim>\<open>;\<close>. The fragment after
  the last \<^verbatim>\<open>;\<close> is dropped, empty or not.
\<close>

theorem Parse_plain_text:
  assumes "\<not> sublist ''--'' text" and "\<not> sublist ''//'' text" and "\<not> sublist ''$$'' text"
    and "length text < ParseBufSize"
  shows "calls (Parse ParseBufSize (oneShot text) [] accept s)
         = map (\<lambda>f. filter (\<lambda>c. c \<noteq> CHR 0x0A) f @ '';'') (butlast (splitOn (CHR '';'') text))"
proof -
  let ?nl = "\<lambda>c. c \<noteq> CHR 0x0A"
  have "stmts (scan [] (CHR 0x00) text init)
        = map (\<lambda>f. f @ '';'') (butlast (splitOn (CHR '';'') (filter ?nl text)))"
    using no_marker_zero [OF assms(1), of "CHR 0x00"] no_marker_zero [OF assms(2), of "CHR 0x00"]
      no_marker_zero [OF assms(3), of "CHR 0x00"]
    by (subst scan_no_markers) simp_all
  also have "\<dots> = map (\<lambda>f. f @ '';'') (butlast (map (filter ?nl) (splitOn (CHR '';'') text)))"
    by (subst splitOn_filter) simp_all
  also have "\<dots> = map (\<lambda>f. filter ?nl f @ '';'') (butlast (splitOn (CHR '';'') text))"
    by (simp add: map_butlast [symmetric] comp_def)
  finally show ?thesis
    using Parse_oneShot_calls [OF assms(4), of "[]" accept s] by (simp add: deliver_accept)
qed

theorem Parse_plain_text_witness:
  "calls (Parse 64 (oneShot (''a; b'' @ [CHR 0x0A] @ ''c;;d'')) []
            (accept :: (unit, nat) handler) 0)
   = [''a;'', '' bc;'', '';'']"
proof -
  let ?t = "''a; b'' @ [CHR 0x0A] @ ''c;;d''"
  have 1: "\<not> sublist ''--'' ?t" by code_simp
  have 2: "\<not> sublist ''//'' ?t" by code_simp
  have 3: "\<not> sublist ''$$'' ?t" by code_simp
  have 4: "length ?t < 64" by simp
  have 5: "map (\<lambda>f. filter (\<lambda>c. c \<noteq> CHR 0x0A) f @ '';'') (butlast (splitOn (CHR '';'') ?t))
           = [''a;'', '' bc;'', '';'']"
    by simp
  show ?thesis
    using Parse_plain_text [OF 1 2 3 4, of 0] 5 by simp
qed

subsection \<open>The fragment after the last terminator\<close>















section \<open>Properties of the position mapper\<close>

lemma mapLoop_ok:
  "snd (snd (mapLoop pos k line ls cs))
   \<longleftrightarrow> int k < pos \<and> pos \<le> int k + int (length (logical cs))"
proof (induction cs arbitrary: k line ls)
  case Nil
  show ?case by (simp add: logical_def)
next
  case (Cons c cs)
  show ?case
  proof (cases "c = 13")
    case True
    then show ?thesis using Cons.IH [of k line ls] by (simp add: logical_def)
  next
    case False
    show ?thesis
    proof (cases "int (k + 1) = pos")
      case True
      then show ?thesis using False by (auto simp: logical_def Let_def)
    next
      case ne: False
      have "snd (snd (mapLoop pos k line ls (c # cs)))
            = snd (snd (mapLoop pos (k + 1) (if c = 10 then line + 1 else line)
                          (if c = 10 then k + 1 else ls) cs))"
        using False ne by (simp add: Let_def)
      also have "\<dots> \<longleftrightarrow> int (k + 1) < pos \<and> pos \<le> int (k + 1) + int (length (logical cs))"
        by (rule Cons.IH)
      also have "\<dots> \<longleftrightarrow> int k < pos \<and> pos \<le> int k + int (length (logical (c # cs)))"
        using False ne by (auto simp: logical_def)
      finally show ?thesis .
    qed
  qed
qed

text \<open>
  The model agrees with the table of \<^verbatim>\<open>Test_computeLineFromPos\<close>, also when every
  line feed is preceded by a carriage return and when \<^verbatim>\<open>FROM\<close> is written with the
  code point 214 in place of \<^verbatim>\<open>O\<close>.
\<close>

lemma mapPosition_test_table:
  "mapPosition (codePoints (''SELECT *'' @ [CHR 0x0A, CHR 0x0A] @ ''FROM foo'')) 16 = (3, 6, True)"
  "mapPosition (codePoints (''SELECT *'' @ [CHR 0x0A] @ ''FROM foo'' @ [CHR 0x0A] @ ''WHERE x'')) 25
   = (3, 7, True)"
  "mapPosition (codePoints (''SELECT *'' @ [CHR 0x0A] @ ''FROMM foo'')) 10 = (2, 1, True)"
  "mapPosition (codePoints (''SELECT *'' @ [CHR 0x0A, CHR 0x0A] @ ''FROMM foo'')) 11 = (3, 1, True)"
  "mapPosition (codePoints (''SELECT *'' @ [CHR 0x0A] @ ''FROM foo'')) 17 = (2, 8, True)"
  "mapPosition (codePoints (''SELECT *'' @ [CHR 0x0D, CHR 0x0A] @ ''FROM foo'')) 15 = (2, 6, True)"
  "mapPosition (codePoints (''SELECT *'' @ [CHR 0x0D, CHR 0x0A] @ ''FROM foo'')) 18 = (0, 0, False)"
  "mapPosition (codePoints (''SELECT *'' @ [CHR 0x0A] @ ''FR'') @ [214]
      @ codePoints ''M foo'') 15 = (2, 6, True)"
  by code_simp+

text \<open>
  Claim C4. \<open>mapPosition text pos\<close> returns \<open>ok = True\<close> exactly when \<open>pos\<close> is at least
  1 and at most the number of code points of the logical text, in which carriage
  returns do not count. For \<^verbatim>\<open>SELECT *\<close>, line feed, \<^verbatim>\<open>FROM foo\<close> the position 15 is
  line 2, column 6, and the position 18 of this text of 17 code points is not ok.
\<close>

theorem mapPosition_ok_iff:
  "(snd (snd (mapPosition text pos)) \<longleftrightarrow> 1 \<le> pos \<and> pos \<le> int (length (logical text)))
   \<and> mapPosition (codePoints (''SELECT *'' @ [CHR 0x0A] @ ''FROM foo'')) 15 = (2, 6, True)
   \<and> length (logical (codePoints (''SELECT *'' @ [CHR 0x0A] @ ''FROM foo''))) = 17
   \<and> mapPosition (codePoints (''SELECT *'' @ [CHR 0x0A] @ ''FROM foo'')) 18 = (0, 0, False)"
proof -
  have "snd (snd (mapPosition text pos)) \<longleftrightarrow> 1 \<le> pos \<and> pos \<le> int (length (logical text))"
    using mapLoop_ok [of pos 0 1 0 "text"] by (auto simp: mapPosition_def)
  moreover have
    "mapPosition (codePoints (''SELECT *'' @ [CHR 0x0A] @ ''FROM foo'')) 15 = (2, 6, True)"
    by code_simp
  moreover have
    "length (logical (codePoints (''SELECT *'' @ [CHR 0x0A] @ ''FROM foo''))) = 17"
    by code_simp
  moreover have
    "mapPosition (codePoints (''SELECT *'' @ [CHR 0x0A] @ ''FROM foo'')) 18 = (0, 0, False)"
    by code_simp
  ultimately show ?thesis by blast
qed

section \<open>Properties of the driver\<close>

text \<open>
  Claim C9. From a driver with no open transaction, \<open>Begin\<close>, \<open>SetVersion 1 False\<close>,
  \<open>Run\<close> of any script and \<open>Rollback\<close> all succeed as driver calls (the run itself may
  fail), the version written is visible inside the transaction, and after \<open>Rollback\<close>
  the driver is in the state it had before \<open>Begin\<close>: neither what the script did nor
  the version row can be observed.
\<close>

theorem Rollback_undoes_run:
  assumes "tx d = None"
  shows "\<exists>d1 d2 err d3.
           Begin d = Inr d1 \<and> SetVersion 1 False d1 = Inr d2
         \<and> Version d2 = Some (1, False)
         \<and> Run engine split script d2 = (err, d3)
         \<and> Rollback d3 = Inr d"
proof -
  let ?d1 = "d\<lparr>tx := Some (committed d)\<rparr>"
  let ?d2 = "d\<lparr>tx := Some ((committed d)\<lparr>version_row := Some (1, False)\<rparr>)\<rparr>"
  obtain err w where ex: "execAll engine (split script)
                            ((committed d)\<lparr>version_row := Some (1, False)\<rparr>) = (err, w)"
    by (cases "execAll engine (split script) ((committed d)\<lparr>version_row := Some (1, False)\<rparr>)")
  have b: "Begin d = Inr ?d1" using assms by (simp add: Begin_def)
  have s: "SetVersion 1 False ?d1 = Inr ?d2" by (simp add: SetVersion_def)
  have v: "Version ?d2 = Some (1, False)" by (simp add: Version_def visible_def)
  have r: "Run engine split script ?d2 = (err, d\<lparr>tx := Some w\<rparr>)"
    using ex by (simp add: Run_def)
  have "d\<lparr>tx := None\<rparr> = d" using assms by (cases d) simp
  then have k: "Rollback (d\<lparr>tx := Some w\<rparr>) = Inr d" by (simp add: Rollback_def)
  show ?thesis using b s v r k by blast
qed

theorem Rollback_undoes_run_witness:
  "tx \<lparr>committed = \<lparr>tables = {}, version_row = None\<rparr>, tx = None\<rparr> = None
   \<and> (\<exists>d1 d2 err d3.
         Begin \<lparr>committed = \<lparr>tables = {}, version_row = None\<rparr>, tx = None\<rparr> = Inr d1
       \<and> SetVersion 1 False d1 = Inr d2
       \<and> Version d2 = Some (1, False)
       \<and> Run createTable wholeScript ''a'' d2 = (err, d3)
       \<and> Rollback d3 = Inr \<lparr>committed = \<lparr>tables = {}, version_row = None\<rparr>, tx = None\<rparr>)
   \<and> Run createTable wholeScript ''a''
        \<lparr>committed = \<lparr>tables = {}, version_row = None\<rparr>,
         tx = Some \<lparr>tables = {}, version_row = Some (1, False)\<rparr>\<rparr>
      = (None, \<lparr>committed = \<lparr>tables = {}, version_row = None\<rparr>,
               tx = Some \<lparr>tables = {''a''}, version_row = Some (1, False)\<rparr>\<rparr>)
   \<and> Version \<lparr>committed = \<lparr>tables = {}, version_row = None\<rparr>, tx = None\<rparr> = None"
proof -
  let ?d = "\<lparr>committed = \<lparr>tables = {}, version_row = None\<rparr>, tx = None\<rparr>"
  have t: "tx ?d = None" by simp
  have r: "Run createTable wholeScript ''a''
        \<lparr>committed = \<lparr>tables = {}, version_row = None\<rparr>,
         tx = Some \<lparr>tables = {}, version_row = Some (1, False)\<rparr>\<rparr>
      = (None, \<lparr>committed = \<lparr>tables = {}, version_row = None\<rparr>,
               tx = Some \<lparr>tables = {''a''}, version_row = Some (1, False)\<rparr>\<rparr>)"
    by (simp add: Run_def createTable_def wholeScript_def)
  have v: "Version ?d = None" by (simp add: Version_def visible_def)
  show ?thesis
    using Rollback_undoes_run [OF t, of createTable wholeScript "''a''"] t r v by blast
qed

end
